theory Spec2Isabelle
  imports Complex_Main "HOL-Library.AList" "HOL-Library.Multiset"
begin

section \<open>Data model of server.py\<close>

text \<open>
  A track is a Python \<^verbatim>\<open>dict[str, Any]\<close> that went through JSON: a finite map from
  field names to JSON values. The fields the server compares are identifiers, which are
  strings or \<^verbatim>\<open>None\<close>; numbers are kept for the other fields. On these values
  Python's \<^verbatim>\<open>==\<close> is structural equality.
\<close>

datatype jval = JNull | JStr string | JNum int

type_synonym track = "string \<rightharpoonup> jval"

text \<open>\<^verbatim>\<open>t.get("id")\<close>: a missing key reads as \<^verbatim>\<open>None\<close>.\<close>

definition get_id :: "track \<Rightarrow> jval" where
  "get_id t = (case t ''id'' of None \<Rightarrow> JNull | Some v \<Rightarrow> v)"

text \<open>The exceptions that the modelled paths raise or let through.\<close>

datatype error = KeyError | ValueError | DownloadError | NotFound | OtherError

text \<open>\<^verbatim>\<open>t["id"]\<close>: a missing key raises \<^verbatim>\<open>KeyError\<close>.\<close>

definition index_id :: "track \<Rightarrow> error + jval" where
  "index_id t = (case t ''id'' of None \<Rightarrow> Inl KeyError | Some v \<Rightarrow> Inr v)"

text \<open>
  Timestamps are the values of \<^verbatim>\<open>time.time()\<close>, taken as real numbers. Every reading
  of the clock is an argument of the function that reads it.
\<close>

definition SEARCH_CACHE_TTL :: real where
  "SEARCH_CACHE_TTL = 60 * 30"

definition AUDIO_URL_TTL :: real where
  "AUDIO_URL_TTL = 60 * 60 * 4"

definition RELATED_CACHE_TTL :: real where
  "RELATED_CACHE_TTL = 60 * 60"

subsection \<open>The per-user document\<close>

record search_entry =
  se_ts :: real
  se_results :: "track list"

record playlist =
  pl_name :: string
  pl_tracks :: "track list"
  pl_created_at :: real

text \<open>
  The search cache is a Python dict whose iteration order matters to \<^verbatim>\<open>sorted\<close>
  (a stable sort): an association list in insertion order. \<^const>\<open>AList.update\<close> is
  the dict assignment \<^verbatim>\<open>cache[key] = v\<close>: an existing key keeps its place, a new key
  goes to the end. Every document that the server writes has the four keys, so the
  defaults of \<^verbatim>\<open>data.get("history", [])\<close> and the like are never used.
\<close>

record user_data =
  history :: "track list"
  search_cache :: "(string \<times> search_entry) list"
  liked :: "string list"
  playlists :: "string \<rightharpoonup> playlist"

text \<open>The directory \<^verbatim>\<open>user_data/\<close>: one document for each user name that has a file.\<close>

type_synonym user_files = "string \<rightharpoonup> user_data"

definition load_user :: "user_files \<Rightarrow> string \<Rightarrow> user_data" where
  "load_user fs username =
     (case fs username of
        Some d \<Rightarrow> d
      | None \<Rightarrow> \<lparr>history = [], search_cache = [], liked = [], playlists = Map.empty\<rparr>)"

definition save_user :: "user_files \<Rightarrow> string \<Rightarrow> user_data \<Rightarrow> user_files" where
  "save_user fs username d = fs(username \<mapsto> d)"

subsection \<open>History\<close>

definition record_play :: "user_files \<Rightarrow> string \<Rightarrow> track \<Rightarrow> user_files" where
  "record_play fs username tr =
     (let d = load_user fs username;
          h1 = filter (\<lambda>t. get_id t \<noteq> get_id tr) (history d);
          h2 = tr # h1;
          h3 = take 200 h2
      in save_user fs username (d\<lparr>history := h3\<rparr>))"

text \<open>The route \<^verbatim>\<open>GET /api/history\<close>: the value under \<^verbatim>\<open>"history"\<close> of the response.\<close>

definition get_history :: "user_files \<Rightarrow> string \<Rightarrow> track list" where
  "get_history fs username = take 50 (history (load_user fs username))"

subsection \<open>Likes\<close>

text \<open>\<^verbatim>\<open>POST /api/like/{video_id}\<close>: the files after the request.\<close>

definition like_track :: "user_files \<Rightarrow> string \<Rightarrow> string \<Rightarrow> user_files" where
  "like_track fs username video_id =
     (let d = load_user fs username;
          l0 = liked d;
          l1 = (if video_id \<notin> set l0 then video_id # l0 else l0)
      in save_user fs username (d\<lparr>liked := take 500 l1\<rparr>))"

definition unlike_track :: "user_files \<Rightarrow> string \<Rightarrow> string \<Rightarrow> user_files" where
  "unlike_track fs username video_id =
     (let d = load_user fs username
      in save_user fs username (d\<lparr>liked := filter (\<lambda>v. v \<noteq> video_id) (liked d)\<rparr>))"

definition get_liked :: "user_files \<Rightarrow> string \<Rightarrow> string list" where
  "get_liked fs username = liked (load_user fs username)"

subsection \<open>Playlists\<close>

text \<open>
  Each playlist route answers 404 when the playlist id is unknown and otherwise saves the
  document and answers with the new track count. The model returns the files together
  with the count, or the error. Playlists are created by \<^verbatim>\<open>create_playlist\<close> with the
  three keys \<^verbatim>\<open>name\<close>, \<^verbatim>\<open>tracks\<close>, \<^verbatim>\<open>created_at\<close>, so a stored playlist is
  never an empty dict and \<^verbatim>\<open>not pl\<close> holds exactly for an unknown id.
\<close>

definition add_to_playlist ::
  "user_files \<Rightarrow> string \<Rightarrow> string \<Rightarrow> track \<Rightarrow> error + (user_files \<times> nat)" where
  "add_to_playlist fs username playlist_id tr =
     (let d = load_user fs username in
      case playlists d playlist_id of
        None \<Rightarrow> Inl NotFound
      | Some pl \<Rightarrow>
          let tracks = pl_tracks pl;
              tracks' = (if \<not> list_ex (\<lambda>t. get_id t = get_id tr) tracks
                         then tracks @ [tr] else tracks);
              d' = d\<lparr>playlists := (playlists d)(playlist_id \<mapsto> pl\<lparr>pl_tracks := tracks'\<rparr>)\<rparr>
          in Inr (save_user fs username d', length tracks'))"

definition remove_from_playlist ::
  "user_files \<Rightarrow> string \<Rightarrow> string \<Rightarrow> string \<Rightarrow> error + (user_files \<times> nat)" where
  "remove_from_playlist fs username playlist_id video_id =
     (let d = load_user fs username in
      case playlists d playlist_id of
        None \<Rightarrow> Inl NotFound
      | Some pl \<Rightarrow>
          let tracks' = filter (\<lambda>t. get_id t \<noteq> JStr video_id) (pl_tracks pl);
              d' = d\<lparr>playlists := (playlists d)(playlist_id \<mapsto> pl\<lparr>pl_tracks := tracks'\<rparr>)\<rparr>
          in Inr (save_user fs username d', length tracks'))"

text \<open>
  \<^verbatim>\<open>track_map = {t["id"]: t for t in tracks}\<close>: built left to right, a later track
  replaces an earlier one under the same identifier, and a track without the key
  \<^verbatim>\<open>"id"\<close> raises \<^verbatim>\<open>KeyError\<close>.
\<close>

fun build_track_map :: "(jval \<rightharpoonup> track) \<Rightarrow> track list \<Rightarrow> error + (jval \<rightharpoonup> track)" where
  "build_track_map m [] = Inr m"
| "build_track_map m (t # ts) =
     (case index_id t of
        Inl e \<Rightarrow> Inl e
      | Inr i \<Rightarrow> build_track_map (m(i \<mapsto> t)) ts)"

text \<open>\<^verbatim>\<open>[track_map[tid] for tid in track_ids if tid in track_map]\<close>\<close>

definition pick_tracks :: "(jval \<rightharpoonup> track) \<Rightarrow> string list \<Rightarrow> track list" where
  "pick_tracks track_map track_ids =
     List.map_filter (\<lambda>tid. track_map (JStr tid)) track_ids"

definition reorder_playlist ::
  "user_files \<Rightarrow> string \<Rightarrow> string \<Rightarrow> string list \<Rightarrow> error + (user_files \<times> nat)" where
  "reorder_playlist fs username playlist_id track_ids =
     (let d = load_user fs username in
      case playlists d playlist_id of
        None \<Rightarrow> Inl NotFound
      | Some pl \<Rightarrow>
          (case build_track_map Map.empty (pl_tracks pl) of
             Inl e \<Rightarrow> Inl e
           | Inr track_map \<Rightarrow>
               let tracks' = pick_tracks track_map track_ids;
                   d' = d\<lparr>playlists := (playlists d)(playlist_id \<mapsto> pl\<lparr>pl_tracks := tracks'\<rparr>)\<rparr>
               in Inr (save_user fs username d', length tracks')))"

text \<open>The track sequence of a stored playlist, read back from the files.\<close>

definition playlist_tracks :: "user_files \<Rightarrow> string \<Rightarrow> string \<Rightarrow> track list option" where
  "playlist_tracks fs username playlist_id =
     map_option pl_tracks (playlists (load_user fs username) playlist_id)"

subsection \<open>The per-user search cache\<close>

text \<open>
  \<^verbatim>\<open>cached_search\<close>. The normalisation \<^verbatim>\<open>query.lower().strip()\<close> is the parameter
  \<open>normalise\<close>. The clock is read once for the lookup (\<open>now\<close>) and once for the new entry
  (\<open>now'\<close>); \<open>ext\<close> is what \<^verbatim>\<open>_sync_search\<close> answers when it is called (an exception
  passes through and nothing is saved). The result is the answer, the files and whether
  the external search was called. \<open>search_cached\<close> is the lookup of lines 232 to 234,
  \<open>search_store\<close> the new cache of lines 237 to 239.

  \<^verbatim>\<open>sorted(cache.items(), key=lambda x: x[1]["ts"])\<close> is a stable sort by timestamp, as
  \<^const>\<open>sort_key\<close> is; \<^verbatim>\<open>[-50:]\<close> keeps the last 50.
\<close>

definition search_cached :: "(string \<times> search_entry) list \<Rightarrow> string \<Rightarrow> real \<Rightarrow> track list option" where
  "search_cached cache key now =
     (case map_of cache key of
        Some entry \<Rightarrow> if now - se_ts entry < SEARCH_CACHE_TTL then Some (se_results entry) else None
      | None \<Rightarrow> None)"

definition search_store ::
  "(string \<times> search_entry) list \<Rightarrow> string \<Rightarrow> real \<Rightarrow> track list \<Rightarrow> (string \<times> search_entry) list" where
  "search_store cache key now' results =
     (let cache1 = AList.update key \<lparr>se_ts = now', se_results = results\<rparr> cache
      in if length cache1 > 50
         then drop (length cache1 - 50) (sort_key (\<lambda>x. se_ts (snd x)) cache1)
         else cache1)"

definition cached_search ::
  "(string \<Rightarrow> string) \<Rightarrow> user_files \<Rightarrow> string \<Rightarrow> string \<Rightarrow> real \<Rightarrow> error + track list \<Rightarrow> real
     \<Rightarrow> (error + track list) \<times> user_files \<times> bool" where
  "cached_search normalise fs username query now ext now' =
     (let d = load_user fs username;
          cache = search_cache d;
          key = normalise query
      in case search_cached cache key now of
           Some results \<Rightarrow> (Inr results, fs, False)
         | None \<Rightarrow>
             (case ext of
                Inl e \<Rightarrow> (Inl e, fs, True)
              | Inr results \<Rightarrow>
                  (Inr results,
                   save_user fs username (d\<lparr>search_cache := search_store cache key now' results\<rparr>),
                   True)))"

subsection \<open>The in-memory caches and the in-flight table\<close>

record url_entry =
  ue_url :: string
  ue_ts :: real

record info_entry =
  ie_info :: track
  ie_ts :: real

record related_entry =
  re_related :: "track list"
  re_ts :: real

text \<open>
  The module's global state. An \<^verbatim>\<open>asyncio.Event\<close> is an object on the heap: \<open>events\<close>
  maps the address of each event to its flag, and \<open>next_event\<close> is the next free address.
  \<open>resolve_calls\<close> is not in the source: it logs each submission of \<^verbatim>\<open>_sync_audio_url\<close>
  to the executor, so that the external calls can be counted.
\<close>

record server =
  audio_url_cache :: "string \<rightharpoonup> url_entry"
  audio_url_inflight :: "string \<rightharpoonup> nat"
  track_info_cache :: "string \<rightharpoonup> info_entry"
  related_cache :: "string \<rightharpoonup> related_entry"
  events :: "nat \<rightharpoonup> bool"
  next_event :: nat
  resolve_calls :: "string list"

text \<open>The state when the module has been loaded (lines 44 to 55): nothing cached,
  nothing in flight.\<close>

definition initial_server :: server where
  "initial_server =
     \<lparr>audio_url_cache = Map.empty, audio_url_inflight = Map.empty,
      track_info_cache = Map.empty, related_cache = Map.empty,
      events = Map.empty, next_event = 0, resolve_calls = []\<rparr>"

subsection \<open>fetch_related\<close>

text \<open>Lines 207 to 209: the answer from the cache, when there is a fresh one.\<close>

definition related_cached :: "server \<Rightarrow> string \<Rightarrow> real \<Rightarrow> track list option" where
  "related_cached s video_id now =
     (case related_cache s video_id of
        Some cached \<Rightarrow>
          if now - re_ts cached < RELATED_CACHE_TTL then Some (re_related cached) else None
      | None \<Rightarrow> None)"

text \<open>
  Lines 210 to 215, after the executor has answered with \<open>ext\<close>: a
  \<^verbatim>\<open>DownloadError\<close> becomes the empty list, any other exception passes through and
  nothing is stored.
\<close>

definition related_store ::
  "server \<Rightarrow> string \<Rightarrow> error + track list \<Rightarrow> real \<Rightarrow> (error + track list) \<times> server" where
  "related_store s video_id ext now' =
     (case (case ext of
              Inr related \<Rightarrow> Inr related
            | Inl DownloadError \<Rightarrow> Inr []
            | Inl e \<Rightarrow> Inl e) of
        Inl e \<Rightarrow> (Inl e, s)
      | Inr related \<Rightarrow>
          (Inr related,
           s\<lparr>related_cache := (related_cache s)(video_id \<mapsto> \<lparr>re_related = related, re_ts = now'\<rparr>)\<rparr>))"

text \<open>One call of \<^verbatim>\<open>fetch_related\<close>: the answer, the state, and whether
  \<^verbatim>\<open>_sync_related\<close> was called.\<close>

definition fetch_related ::
  "server \<Rightarrow> string \<Rightarrow> real \<Rightarrow> error + track list \<Rightarrow> real
     \<Rightarrow> (error + track list) \<times> server \<times> bool" where
  "fetch_related s video_id now ext now' =
     (case related_cached s video_id now of
        Some related \<Rightarrow> (Inr related, s, False)
      | None \<Rightarrow> (let (r, s') = related_store s video_id ext now' in (r, s', True)))"

subsection \<open>fetch_track_info\<close>

text \<open>Lines 219 to 221; on \<open>None\<close> the function goes on to \<^verbatim>\<open>fetch_stream\<close>.\<close>

definition track_info_cached :: "server \<Rightarrow> string \<Rightarrow> real \<Rightarrow> track option" where
  "track_info_cached s video_id now =
     (case track_info_cache s video_id of
        Some cached \<Rightarrow> if now - ie_ts cached < AUDIO_URL_TTL then Some (ie_info cached) else None
      | None \<Rightarrow> None)"

subsection \<open>fetch_stream\<close>

text \<open>
  A call of \<^verbatim>\<open>fetch_stream(video_id)\<close> is a coroutine. It is suspended in
  \<^verbatim>\<open>event.wait()\<close> (line 188) or in the executor call (line 197), or it has ended
  with a value or an exception. Between two suspension points it runs alone on the event
  loop, so each segment is a function on the global state.
\<close>

datatype coro =
    Created
  | Waiting nat
  | Fetching nat
  | Returned "string \<times> track"
  | Raised error

text \<open>\<^verbatim>\<open>_track_info_cache.get(video_id, {}).get("info") or {}\<close>\<close>

definition cached_track :: "server \<Rightarrow> string \<Rightarrow> track" where
  "cached_track s video_id =
     (case track_info_cache s video_id of None \<Rightarrow> Map.empty | Some e \<Rightarrow> ie_info e)"

text \<open>Lines 181 to 184: the cache hit.\<close>

definition audio_url_cached :: "server \<Rightarrow> string \<Rightarrow> real \<Rightarrow> (string \<times> track) option" where
  "audio_url_cached s video_id now =
     (case audio_url_cache s video_id of
        Some cached \<Rightarrow>
          if now - ue_ts cached < AUDIO_URL_TTL
          then Some (ue_url cached, cached_track s video_id) else None
      | None \<Rightarrow> None)"

text \<open>
  Lines 194 to 197, up to the suspension: a new event, registered under the identifier
  (whatever was registered before), and the call handed to the executor.
\<close>

definition fetch_stream_launch :: "server \<Rightarrow> string \<Rightarrow> server \<times> coro" where
  "fetch_stream_launch s video_id =
     (let event = next_event s
      in (s\<lparr>events := (events s)(event \<mapsto> False),
            next_event := Suc event,
            audio_url_inflight := (audio_url_inflight s)(video_id \<mapsto> event),
            resolve_calls := resolve_calls s @ [video_id]\<rparr>,
          Fetching event))"

text \<open>
  Lines 189 to 192, after \<^verbatim>\<open>wait()\<close>: any entry of the cache, fresh or not, is the
  answer; with no entry the coroutine falls through to line 194.
\<close>

definition fetch_stream_after_wait :: "server \<Rightarrow> string \<Rightarrow> server \<times> coro" where
  "fetch_stream_after_wait s video_id =
     (case audio_url_cache s video_id of
        Some cached \<Rightarrow> (s, Returned (ue_url cached, cached_track s video_id))
      | None \<Rightarrow> fetch_stream_launch s video_id)"

text \<open>
  Lines 187 and 188: \<^verbatim>\<open>wait()\<close> on an event that is already set returns at once,
  otherwise the coroutine is suspended.
\<close>

definition fetch_stream_join :: "server \<Rightarrow> string \<Rightarrow> server \<times> coro" where
  "fetch_stream_join s video_id =
     (case audio_url_inflight s video_id of
        Some event \<Rightarrow>
          if events s event = Some True then fetch_stream_after_wait s video_id
          else (s, Waiting event)
      | None \<Rightarrow> fetch_stream_launch s video_id)"

text \<open>The first segment: from the call to the first suspension or to the return.\<close>

definition fetch_stream_start :: "server \<Rightarrow> string \<Rightarrow> real \<Rightarrow> server \<times> coro" where
  "fetch_stream_start s video_id now =
     (case audio_url_cached s video_id now of
        Some r \<Rightarrow> (s, Returned r)
      | None \<Rightarrow> fetch_stream_join s video_id)"

text \<open>
  Lines 198 to 203: the executor call of the coroutine that owns \<open>event\<close> has ended with
  \<open>outcome\<close>. The clock is read for each of the two entries. The \<^verbatim>\<open>finally\<close> block
  sets the event and removes whatever is registered under the identifier.
\<close>

definition fetch_stream_finish ::
  "server \<Rightarrow> string \<Rightarrow> nat \<Rightarrow> error + (string \<times> track) \<Rightarrow> real \<Rightarrow> real \<Rightarrow> server \<times> coro" where
  "fetch_stream_finish s video_id event outcome now1 now2 =
     (let (s1, c) =
        (case outcome of
           Inr (audio_url, track_info) \<Rightarrow>
             (s\<lparr>audio_url_cache := (audio_url_cache s)(video_id \<mapsto> \<lparr>ue_url = audio_url, ue_ts = now1\<rparr>),
                track_info_cache := (track_info_cache s)(video_id \<mapsto> \<lparr>ie_info = track_info, ie_ts = now2\<rparr>)\<rparr>,
              Returned (audio_url, track_info))
         | Inl e \<Rightarrow> (s, Raised e))
      in (s1\<lparr>events := (events s1)(event \<mapsto> True),
             audio_url_inflight := (audio_url_inflight s1)(video_id := None)\<rparr>,
          c))"

subsection \<open>The event loop\<close>

text \<open>
  The server with the \<^verbatim>\<open>fetch_stream\<close> coroutines that exist, each with its
  identifier. The event loop runs one segment of one coroutine at a time: it starts a
  coroutine that was created, resumes one whose event is set, or resumes one whose
  executor call has ended, with the outcome of the call. A schedule is a list of such
  actions; \<open>run\<close> is \<open>None\<close> when an action of the schedule cannot happen.
\<close>

record system =
  srv :: server
  tasks :: "(string \<times> coro) list"

datatype action =
    Start nat real
  | Wake nat
  | Finish nat "error + (string \<times> track)" real real

definition resume :: "system \<Rightarrow> nat \<Rightarrow> string \<Rightarrow> server \<times> coro \<Rightarrow> system" where
  "resume sys i video_id r = sys\<lparr>srv := fst r, tasks := (tasks sys)[i := (video_id, snd r)]\<rparr>"

fun exec :: "system \<Rightarrow> action \<Rightarrow> system option" where
  "exec sys (Start i now) =
     (if i < length (tasks sys) then
        (case tasks sys ! i of
           (video_id, Created) \<Rightarrow> Some (resume sys i video_id (fetch_stream_start (srv sys) video_id now))
         | _ \<Rightarrow> None)
      else None)"
| "exec sys (Wake i) =
     (if i < length (tasks sys) then
        (case tasks sys ! i of
           (video_id, Waiting event) \<Rightarrow>
             if events (srv sys) event = Some True
             then Some (resume sys i video_id (fetch_stream_after_wait (srv sys) video_id))
             else None
         | _ \<Rightarrow> None)
      else None)"
| "exec sys (Finish i outcome now1 now2) =
     (if i < length (tasks sys) then
        (case tasks sys ! i of
           (video_id, Fetching event) \<Rightarrow>
             Some (resume sys i video_id (fetch_stream_finish (srv sys) video_id event outcome now1 now2))
         | _ \<Rightarrow> None)
      else None)"

fun run :: "system \<Rightarrow> action list \<Rightarrow> system option" where
  "run sys [] = Some sys"
| "run sys (a # as) = (case exec sys a of None \<Rightarrow> None | Some sys' \<Rightarrow> run sys' as)"

subsection \<open>prefetch_next\<close>

text \<open>
  The identifiers for which \<^verbatim>\<open>prefetch_next\<close> creates a \<^verbatim>\<open>_prefetch_one\<close> task, in
  order. The loop does not suspend, so the cache is the same for every hint.
\<close>

definition prefetch_next :: "server \<Rightarrow> string list \<Rightarrow> string list" where
  "prefetch_next s video_ids =
     filter (\<lambda>vid. vid \<notin> dom (audio_url_cache s)) (take 3 video_ids)"

subsection \<open>Concurrent callers of one identifier\<close>

text \<open>
  K calls of \<^verbatim>\<open>fetch_stream\<close> for one identifier, all created and none started yet,
  on a server in state \<open>s\<close>.
\<close>

definition callers :: "server \<Rightarrow> string \<Rightarrow> nat \<Rightarrow> system" where
  "callers s video_id K = \<lparr>srv = s, tasks = replicate K (video_id, Created)\<rparr>"



section \<open>History: record_play and the history route\<close>

lemma history_record_play:
  "history (load_user (record_play fs u tr) u) =
     take 200 (tr # filter (\<lambda>t. get_id t \<noteq> get_id tr) (history (load_user fs u)))"
  by (simp add: record_play_def save_user_def load_user_def Let_def)

lemma take_Cons_take: "take n (x # take n xs) = take n (x # xs)"
  by (cases n) simp_all

lemma filter_id_conv: "(\<forall>x \<in> set xs. P x) \<Longrightarrow> filter P xs = xs"
  by simp

lemma plays_prefix:
  "distinct (map get_id ts) \<Longrightarrow> ts \<noteq> [] \<Longrightarrow>
   \<exists>rest. history (load_user (foldl (\<lambda>s t. record_play s u t) fs ts) u) = take 200 (rev ts @ rest)"
proof (induction ts rule: rev_induct)
  case Nil
  then show ?case by simp
next
  case (snoc t ts)
  let ?P = "\<lambda>x. get_id x \<noteq> get_id t"
  show ?case
  proof (cases "ts = []")
    case True
    show ?thesis
      by (rule exI [of _ "filter ?P (history (load_user fs u))"])
         (simp add: True history_record_play)
  next
    case False
    with snoc obtain rest where
      h: "history (load_user (foldl (\<lambda>s t. record_play s u t) fs ts) u) = take 200 (rev ts @ rest)"
      by auto
    from snoc.prems have ne: "\<forall>x \<in> set ts. get_id x \<noteq> get_id t" by (auto simp: image_iff)
    have f1: "filter ?P (take 200 (rev ts)) = take 200 (rev ts)"
      using ne by (auto intro!: filter_id_conv dest: in_set_takeD)
    have f2: "take (200 - length ts) (filter ?P (take (200 - length ts) rest)) =
              filter ?P (take (200 - length ts) rest)"
      by (rule take_all) (rule le_trans [OF length_filter_le], simp)
    have f: "filter ?P (take 200 (rev ts @ rest)) =
             take 200 (rev ts @ filter ?P (take (200 - length ts) rest))"
      by (simp add: f1 f2)
    show ?thesis
      apply (rule exI [of _ "filter ?P (take (200 - length ts) rest)"])
      apply (simp add: history_record_play h f take_Cons_take del: take_append)
      done
  qed
qed

lemma plays_from_empty:
  "distinct (map get_id ts) \<Longrightarrow>
   history (load_user (foldl (\<lambda>s t. record_play s u t) Map.empty ts) u) = take 200 (rev ts)"
proof (induction ts rule: rev_induct)
  case Nil
  show ?case by (simp add: load_user_def)
next
  case (snoc t ts)
  from snoc.prems have ne: "\<forall>x \<in> set ts. get_id x \<noteq> get_id t" by (auto simp: image_iff)
  have "filter (\<lambda>x. get_id x \<noteq> get_id t) (take 200 (rev ts)) = take 200 (rev ts)"
    using ne by (auto intro!: filter_id_conv dest: in_set_takeD)
  with snoc show ?case
    by (simp add: history_record_play take_Cons_take)
qed

lemma plays_many:
  assumes "distinct (map get_id ts)" "200 \<le> length ts"
  shows "history (load_user (foldl (\<lambda>s t. record_play s u t) fs ts) u) = take 200 (rev ts)"
proof -
  from assms have "ts \<noteq> []" by auto
  from plays_prefix [OF assms(1) this] obtain rest where
    "history (load_user (foldl (\<lambda>s t. record_play s u t) fs ts) u) = take 200 (rev ts @ rest)" by blast
  with assms(2) show ?thesis by simp
qed

lemma history_no_file: "history (load_user Map.empty u) = []"
  by (simp add: load_user_def)

text \<open>
  Claim C2. \<^verbatim>\<open>record_play\<close> removes every history entry that has the identifier of
  the played track, puts the track in front and keeps the first 200 entries. Recording
  the plays A, B, A, C for a user without a file leaves the history C, A, B; recording
  201 plays with pairwise different identifiers leaves exactly 200 entries, the 200 latest
  plays, newest first: the oldest play is gone.
\<close>

theorem record_play_dedup_cap:
  "(let h' = history (load_user (record_play fs u tr) u) in
      h' = take 200 (tr # filter (\<lambda>t. get_id t \<noteq> get_id tr) (history (load_user fs u))) \<and>
      hd h' = tr \<and> (\<forall>t \<in> set (tl h'). get_id t \<noteq> get_id tr) \<and> length h' \<le> 200)
   \<and> (get_id a \<noteq> get_id b \<and> get_id a \<noteq> get_id c \<and> get_id b \<noteq> get_id c \<longrightarrow>
        history (load_user (foldl (\<lambda>s t. record_play s u t) Map.empty [a, b, a, c]) u) = [c, a, b])
   \<and> (distinct (map get_id ts) \<and> length ts = 201 \<longrightarrow>
        history (load_user (foldl (\<lambda>s t. record_play s u t) fs ts) u) = rev (tl ts) \<and>
        length (history (load_user (foldl (\<lambda>s t. record_play s u t) fs ts) u)) = 200)"
proof (intro conjI impI)
  let ?h = "history (load_user fs u)"
  let ?f = "filter (\<lambda>t. get_id t \<noteq> get_id tr) ?h"
  have tl_sub: "set (tl (take 200 (tr # ?f))) \<subseteq> set ?f"
    by (auto simp: take_Cons' dest: in_set_takeD)
  show "let h' = history (load_user (record_play fs u tr) u) in
      h' = take 200 (tr # ?f) \<and>
      hd h' = tr \<and> (\<forall>t \<in> set (tl h'). get_id t \<noteq> get_id tr) \<and> length h' \<le> 200"
    unfolding Let_def history_record_play using tl_sub by auto
next
  assume "get_id a \<noteq> get_id b \<and> get_id a \<noteq> get_id c \<and> get_id b \<noteq> get_id c"
  then show "history (load_user (foldl (\<lambda>s t. record_play s u t) Map.empty [a, b, a, c]) u) = [c, a, b]"
    by (auto simp: history_record_play history_no_file)
next
  assume a: "distinct (map get_id ts) \<and> length ts = 201"
  then have h: "history (load_user (foldl (\<lambda>s t. record_play s u t) fs ts) u) = take 200 (rev ts)"
    by (simp add: plays_many)
  from a obtain x xs where ts: "ts = x # xs" by (cases ts) auto
  with a have "length xs = 200" by simp
  then show "history (load_user (foldl (\<lambda>s t. record_play s u t) fs ts) u) = rev (tl ts)"
    unfolding h by (simp add: ts)
  from a show "length (history (load_user (foldl (\<lambda>s t. record_play s u t) fs ts) u)) = 200"
    unfolding h by simp
qed

theorem record_play_dedup_cap_witness:
  "history (load_user (foldl (\<lambda>s t. record_play s ''alice'' t) Map.empty
       [[''id'' \<mapsto> JStr ''A''], [''id'' \<mapsto> JStr ''B''], [''id'' \<mapsto> JStr ''A''], [''id'' \<mapsto> JStr ''C'']])
     ''alice'')
   = [[''id'' \<mapsto> JStr ''C''], [''id'' \<mapsto> JStr ''A''], [''id'' \<mapsto> JStr ''B'']]
   \<and> length (history (load_user (foldl (\<lambda>s t. record_play s ''alice'' t) Map.empty
         (map (\<lambda>n. [''id'' \<mapsto> JNum (int n)]) [0..<201])) ''alice'')) = 200"
proof -
  have d: "distinct (map get_id (map (\<lambda>n. [''id'' \<mapsto> JNum (int n)]) [0..<201]))"
    by (simp add: get_id_def distinct_map comp_def inj_on_def)
  have i: "get_id [''id'' \<mapsto> JStr ''A''] \<noteq> get_id [''id'' \<mapsto> JStr ''B''] \<and>
           get_id [''id'' \<mapsto> JStr ''A''] \<noteq> get_id [''id'' \<mapsto> JStr ''C''] \<and>
           get_id [''id'' \<mapsto> JStr ''B''] \<noteq> get_id [''id'' \<mapsto> JStr ''C'']"
    by (simp add: get_id_def)
  show ?thesis
    using record_play_dedup_cap [of Map.empty "''alice''" "[''id'' \<mapsto> JStr ''A'']"
        "[''id'' \<mapsto> JStr ''A'']" "[''id'' \<mapsto> JStr ''B'']" "[''id'' \<mapsto> JStr ''C'']"
        "map (\<lambda>n. [''id'' \<mapsto> JNum (int n)]) [0..<201]"] d i
    by simp
qed

section \<open>Likes\<close>

lemma liked_like_track:
  "get_liked (like_track fs u v) u =
     take 500 (if v \<notin> set (get_liked fs u) then v # get_liked fs u else get_liked fs u)"
  by (simp add: like_track_def get_liked_def save_user_def load_user_def Let_def)

text \<open>
  Claim C9. Liking an identifier that is not in the liked list puts it in front and keeps
  the first 500 entries; liking it a second time changes nothing: the list is the list
  after the first like and holds the identifier once, in front. On every list within the
  cap of 500, which is every list the server writes, a second like of any identifier
  changes nothing.
\<close>

theorem like_track_idempotent:
  "(v \<notin> set (get_liked fs u) \<longrightarrow>
      get_liked (like_track fs u v) u = take 500 (v # get_liked fs u) \<and>
      get_liked (like_track (like_track fs u v) u v) u = get_liked (like_track fs u v) u \<and>
      hd (get_liked (like_track (like_track fs u v) u v) u) = v \<and>
      count_list (get_liked (like_track (like_track fs u v) u v) u) v = 1)
   \<and> (length (get_liked fs u) \<le> 500 \<longrightarrow>
      get_liked (like_track (like_track fs u v) u v) u = get_liked (like_track fs u v) u)"
proof (intro conjI impI)
  let ?l = "get_liked fs u"
  assume a: "v \<notin> set ?l"
  then show l1: "get_liked (like_track fs u v) u = take 500 (v # ?l)"
    by (simp add: liked_like_track)
  have m: "v \<in> set (take 500 (v # ?l))" by (simp add: take_Cons')
  show l2: "get_liked (like_track (like_track fs u v) u v) u = get_liked (like_track fs u v) u"
    unfolding liked_like_track [of "like_track fs u v"] l1 using m by simp
  show "hd (get_liked (like_track (like_track fs u v) u v) u) = v"
    unfolding l2 l1 by (simp add: take_Cons')
  have "v \<notin> set (take 499 ?l)" using a by (auto dest: in_set_takeD)
  then show "count_list (get_liked (like_track (like_track fs u v) u v) u) v = 1"
    unfolding l2 l1 by (simp add: take_Cons' count_list_0_iff)
next
  let ?l = "get_liked fs u"
  assume b: "length ?l \<le> 500"
  show "get_liked (like_track (like_track fs u v) u v) u = get_liked (like_track fs u v) u"
  proof (cases "v \<in> set ?l")
    case True
    with b show ?thesis by (simp add: liked_like_track)
  next
    case False
    have m: "v \<in> set (take 500 (v # ?l))" by (simp add: take_Cons')
    from False have l1: "get_liked (like_track fs u v) u = take 500 (v # ?l)"
      by (simp add: liked_like_track)
    show ?thesis unfolding liked_like_track [of "like_track fs u v"] l1 using m by simp
  qed
qed

theorem like_track_idempotent_witness:
  "get_liked (like_track (like_track (like_track Map.empty ''alice'' ''v1'') ''alice'' ''v2'') ''alice'' ''v2'') ''alice''
     = [''v2'', ''v1'']"
proof -
  have l: "get_liked (like_track Map.empty ''alice'' ''v1'') ''alice'' = [''v1'']"
    by (simp add: liked_like_track) (simp add: get_liked_def load_user_def)
  show ?thesis
    using like_track_idempotent [of "''v2''" "like_track Map.empty ''alice'' ''v1''" "''alice''"]
    by (simp add: l)
qed

section \<open>The history route\<close>

text \<open>
  Claim C10. The history route returns the first 50 entries of the stored history, so
  never more than 50. After 200 or more plays with pairwise different identifiers the
  document holds 200 entries and the route returns the 50 latest; the 150 entries after
  them are stored and are not in the answer.
\<close>

theorem get_history_first_50:
  "get_history fs u = take 50 (history (load_user fs u)) \<and>
   length (get_history fs u) \<le> 50 \<and>
   (distinct (map get_id ts) \<and> 200 \<le> length ts \<longrightarrow>
      (let fs' = foldl (\<lambda>s t. record_play s u t) fs ts in
         history (load_user fs' u) = take 200 (rev ts) \<and>
         get_history fs' u = take 50 (rev ts) \<and>
         length (history (load_user fs' u)) = 200 \<and>
         length (get_history fs' u) = 50 \<and>
         history (load_user fs' u) = get_history fs' u @ take 150 (drop 50 (rev ts)) \<and>
         set (take 150 (drop 50 (rev ts))) \<inter> set (get_history fs' u) = {}))"
proof (intro conjI impI)
  show "get_history fs u = take 50 (history (load_user fs u))" by (simp add: get_history_def)
  show "length (get_history fs u) \<le> 50" by (simp add: get_history_def)
next
  assume a: "distinct (map get_id ts) \<and> 200 \<le> length ts"
  let ?fs = "foldl (\<lambda>s t. record_play s u t) fs ts"
  from a have h: "history (load_user ?fs u) = take 200 (rev ts)"
    by (simp add: plays_many)
  from a have d: "distinct (rev ts)" by (simp add: distinct_map)
  have split: "take 200 (rev ts) = take 50 (rev ts) @ take 150 (drop 50 (rev ts))"
    using take_add [of 50 150 "rev ts"] by simp
  have disj: "set (take 150 (drop 50 (rev ts))) \<inter> set (take 50 (rev ts)) = {}"
  proof -
    have "set (take 150 (drop 50 (rev ts))) \<subseteq> set (drop 50 (rev ts))"
      by (rule set_take_subset)
    moreover have "set (take 50 (rev ts)) \<inter> set (drop 50 (rev ts)) = {}"
      using d by (intro set_take_disj_set_drop_if_distinct) simp_all
    ultimately show ?thesis by blast
  qed
  show "let fs' = ?fs in
         history (load_user fs' u) = take 200 (rev ts) \<and>
         get_history fs' u = take 50 (rev ts) \<and>
         length (history (load_user fs' u)) = 200 \<and>
         length (get_history fs' u) = 50 \<and>
         history (load_user fs' u) = get_history fs' u @ take 150 (drop 50 (rev ts)) \<and>
         set (take 150 (drop 50 (rev ts))) \<inter> set (get_history fs' u) = {}"
  proof -
    have g: "get_history ?fs u = take 50 (rev ts)"
      by (simp add: get_history_def h)
    from a have l1: "length (take 200 (rev ts)) = 200" by simp
    from a have l2: "length (take 50 (rev ts)) = 50" by simp
    show ?thesis
      unfolding Let_def g h using l1 l2 split disj by blast
  qed
qed

theorem get_history_first_50_witness:
  "length (history (load_user (foldl (\<lambda>s t. record_play s ''alice'' t) Map.empty
       (map (\<lambda>n. [''id'' \<mapsto> JNum (int n)]) [0..<200])) ''alice'')) = 200 \<and>
   length (get_history (foldl (\<lambda>s t. record_play s ''alice'' t) Map.empty
       (map (\<lambda>n. [''id'' \<mapsto> JNum (int n)]) [0..<200])) ''alice'') = 50"
proof -
  have d: "distinct (map get_id (map (\<lambda>n. [''id'' \<mapsto> JNum (int n)]) [0..<200]))"
    by (simp add: get_id_def distinct_map comp_def inj_on_def)
  have l: "200 \<le> length (map (\<lambda>n. [''id'' \<mapsto> JNum (int n)]) [0..<200])"
    by simp
  show ?thesis
    using get_history_first_50 [of Map.empty "''alice''"
        "map (\<lambda>n. [''id'' \<mapsto> JNum (int n)]) [0..<200]"] d l
    unfolding Let_def by blast
qed

section \<open>Playlists\<close>

lemma find_append_case:
  "find P (xs @ ys) = (case find P xs of None \<Rightarrow> find P ys | Some x \<Rightarrow> Some x)"
  by (induction xs) simp_all

lemma index_id_present: "t ''id'' \<noteq> None \<Longrightarrow> index_id t = Inr (get_id t)"
  by (auto simp: index_id_def get_id_def)

lemma build_track_map_present:
  "\<forall>t \<in> set ts. t ''id'' \<noteq> None \<Longrightarrow>
   build_track_map m ts =
     Inr (\<lambda>k. case find (\<lambda>t. get_id t = k) (rev ts) of None \<Rightarrow> m k | Some t \<Rightarrow> Some t)"
proof (induction ts arbitrary: m)
  case Nil
  show ?case by simp
next
  case (Cons t ts)
  then have "build_track_map m (t # ts) = build_track_map (m(get_id t \<mapsto> t)) ts"
    by (simp add: index_id_present)
  also have "\<dots> = Inr (\<lambda>k. case find (\<lambda>t. get_id t = k) (rev ts) of
                               None \<Rightarrow> (m(get_id t \<mapsto> t)) k | Some t \<Rightarrow> Some t)"
    using Cons by simp
  also have "(\<lambda>k. case find (\<lambda>t. get_id t = k) (rev ts) of
                     None \<Rightarrow> (m(get_id t \<mapsto> t)) k | Some t \<Rightarrow> Some t) =
             (\<lambda>k. case find (\<lambda>t. get_id t = k) (rev (t # ts)) of
                     None \<Rightarrow> m k | Some t \<Rightarrow> Some t)"
    by (rule ext) (simp add: find_append_case split: option.splits)
  finally show ?case .
qed

lemma build_track_map_missing:
  "\<exists>t \<in> set ts. t ''id'' = None \<Longrightarrow> build_track_map m ts = Inl KeyError"
proof (induction ts arbitrary: m)
  case Nil
  then show ?case by simp
next
  case (Cons t ts)
  then show ?case
    by (cases "t ''id''") (auto simp: index_id_def)
qed

lemma playlist_tracks_saved:
  "playlist_tracks (save_user fs u (d\<lparr>playlists := (playlists d)(pid \<mapsto> pl)\<rparr>)) u pid
     = Some (pl_tracks pl)"
  by (simp add: playlist_tracks_def save_user_def load_user_def)

lemma reorder_playlist_result:
  assumes "playlists (load_user fs u) pid = Some pl"
    and "\<forall>t \<in> set (pl_tracks pl). t ''id'' \<noteq> None"
  shows "\<exists>fs'. reorder_playlist fs u pid ids =
            Inr (fs', length (List.map_filter
                   (\<lambda>tid. find (\<lambda>t. get_id t = JStr tid) (rev (pl_tracks pl))) ids)) \<and>
          playlist_tracks fs' u pid =
            Some (List.map_filter
                   (\<lambda>tid. find (\<lambda>t. get_id t = JStr tid) (rev (pl_tracks pl))) ids)"
proof -
  have "pick_tracks (\<lambda>k. case find (\<lambda>t. get_id t = k) (rev (pl_tracks pl)) of
                            None \<Rightarrow> Map.empty k | Some t \<Rightarrow> Some t) ids =
        List.map_filter (\<lambda>tid. find (\<lambda>t. get_id t = JStr tid) (rev (pl_tracks pl))) ids"
    unfolding pick_tracks_def
    by (rule arg_cong [where f = "\<lambda>f. List.map_filter f ids"]) (auto split: option.splits)
  then show ?thesis
    using assms
    by (simp add: reorder_playlist_def Let_def build_track_map_present playlist_tracks_saved)
qed

lemma picked_ids:
  "map get_id (List.map_filter (\<lambda>tid. find (\<lambda>t. get_id t = JStr tid) ts) ids) =
     map JStr (filter (\<lambda>tid. JStr tid \<in> get_id ` set ts) ids)"
proof (induction ids)
  case Nil
  show ?case by simp
next
  case (Cons i ids)
  show ?case
  proof (cases "find (\<lambda>t. get_id t = JStr i) ts")
    case None
    then have "JStr i \<notin> get_id ` set ts" by (auto simp: find_None_iff)
    with None Cons show ?thesis by simp
  next
    case (Some t)
    then have "get_id t = JStr i" "t \<in> set ts" by (auto simp: find_Some_iff)
    then have "JStr i \<in> get_id ` set ts" by force
    with Some Cons \<open>get_id t = JStr i\<close> show ?thesis by simp
  qed
qed

lemma picked_subset:
  "set (List.map_filter (\<lambda>tid. find (\<lambda>t. get_id t = JStr tid) ts) ids) \<subseteq> set ts"
proof (induction ids)
  case Nil
  show ?case by simp
next
  case (Cons i ids)
  show ?case
  proof (cases "find (\<lambda>t. get_id t = JStr i) ts")
    case None
    with Cons show ?thesis by simp
  next
    case (Some t)
    then have "t \<in> set ts" by (auto simp: find_Some_iff)
    with Some Cons show ?thesis by simp
  qed
qed

text \<open>
  Reordering. For a stored playlist whose tracks all carry the key \<^verbatim>\<open>"id"\<close> (without it
  \<^verbatim>\<open>t["id"]\<close> raises, see \<open>build_track_map_missing\<close>), the reorder route succeeds and
  the new track sequence is, for each requested identifier that is the identifier of a
  member, in request order, the member with that identifier: foreign identifiers are
  dropped and members that are not requested are gone. The playlist A, B, C reordered by
  C, A becomes C, A, and reordered by C, A, Z becomes C, A as well.
\<close>

theorem reorder_playlist_request_order:
  "playlists (load_user fs u) pid = Some pl \<and> (\<forall>t \<in> set (pl_tracks pl). t ''id'' \<noteq> None) \<longrightarrow>
   (\<exists>fs' res. reorder_playlist fs u pid ids = Inr (fs', length res) \<and>
       playlist_tracks fs' u pid = Some res \<and>
       res = List.map_filter (\<lambda>tid. find (\<lambda>t. get_id t = JStr tid) (rev (pl_tracks pl))) ids \<and>
       map get_id res = map JStr (filter (\<lambda>tid. JStr tid \<in> get_id ` set (pl_tracks pl)) ids) \<and>
       set res \<subseteq> set (pl_tracks pl)) \<and>
   (pl_tracks pl = [a, b, c] \<and> get_id a = JStr ''A'' \<and> get_id b = JStr ''B'' \<and>
    get_id c = JStr ''C'' \<longrightarrow>
      (\<exists>fs'. reorder_playlist fs u pid [''C'', ''A''] = Inr (fs', 2) \<and>
             playlist_tracks fs' u pid = Some [c, a]) \<and>
      (\<exists>fs'. reorder_playlist fs u pid [''C'', ''A'', ''Z''] = Inr (fs', 2) \<and>
             playlist_tracks fs' u pid = Some [c, a]))"
proof (intro impI, elim conjE, intro conjI impI)
  assume pl: "playlists (load_user fs u) pid = Some pl"
    and ids: "\<forall>t \<in> set (pl_tracks pl). t ''id'' \<noteq> None"
  let ?res = "\<lambda>ids. List.map_filter (\<lambda>tid. find (\<lambda>t. get_id t = JStr tid) (rev (pl_tracks pl))) ids"
  from reorder_playlist_result [OF pl ids, of ids] obtain fs' where
    r: "reorder_playlist fs u pid ids = Inr (fs', length (?res ids))"
       "playlist_tracks fs' u pid = Some (?res ids)"
    by blast
  have i: "map get_id (?res ids) =
             map JStr (filter (\<lambda>tid. JStr tid \<in> get_id ` set (pl_tracks pl)) ids)"
    using picked_ids [of "rev (pl_tracks pl)" ids] by simp
  have s: "set (?res ids) \<subseteq> set (pl_tracks pl)"
    using picked_subset [of "rev (pl_tracks pl)" ids] by simp
  from r i s
  show "\<exists>fs' res. reorder_playlist fs u pid ids = Inr (fs', length res) \<and>
       playlist_tracks fs' u pid = Some res \<and> res = ?res ids \<and>
       map get_id res = map JStr (filter (\<lambda>tid. JStr tid \<in> get_id ` set (pl_tracks pl)) ids) \<and>
       set res \<subseteq> set (pl_tracks pl)"
    by blast
  assume abc: "pl_tracks pl = [a, b, c] \<and> get_id a = JStr ''A'' \<and> get_id b = JStr ''B'' \<and>
    get_id c = JStr ''C''"
  then have e1: "?res [''C'', ''A''] = [c, a]" and e2: "?res [''C'', ''A'', ''Z''] = [c, a]"
    by simp_all
  from reorder_playlist_result [OF pl ids, of "[''C'', ''A'']"]
  show "\<exists>fs'. reorder_playlist fs u pid [''C'', ''A''] = Inr (fs', 2) \<and>
             playlist_tracks fs' u pid = Some [c, a]"
    unfolding e1 by (simp add: numeral_2_eq_2)
  from reorder_playlist_result [OF pl ids, of "[''C'', ''A'', ''Z'']"]
  show "\<exists>fs'. reorder_playlist fs u pid [''C'', ''A'', ''Z''] = Inr (fs', 2) \<and>
             playlist_tracks fs' u pid = Some [c, a]"
    unfolding e2 by (simp add: numeral_2_eq_2)
qed

theorem reorder_playlist_request_order_witness:
  "\<exists>fs'. reorder_playlist
       [''alice'' \<mapsto> \<lparr>history = [], search_cache = [], liked = [],
          playlists = [''p1'' \<mapsto> \<lparr>pl_name = ''mix'',
             pl_tracks = [[''id'' \<mapsto> JStr ''A''], [''id'' \<mapsto> JStr ''B''], [''id'' \<mapsto> JStr ''C'']],
             pl_created_at = 0\<rparr>]\<rparr>]
       ''alice'' ''p1'' [''C'', ''A'', ''Z''] = Inr (fs', 2) \<and>
     playlist_tracks fs' ''alice'' ''p1'' = Some [[''id'' \<mapsto> JStr ''C''], [''id'' \<mapsto> JStr ''A'']]"
proof -
  let ?pl = "\<lparr>pl_name = ''mix'',
             pl_tracks = [[''id'' \<mapsto> JStr ''A''], [''id'' \<mapsto> JStr ''B''], [''id'' \<mapsto> JStr ''C'']],
             pl_created_at = 0\<rparr>"
  let ?fs = "[''alice'' \<mapsto> \<lparr>history = [], search_cache = [], liked = [],
          playlists = [''p1'' \<mapsto> ?pl]\<rparr>]"
  have h1: "playlists (load_user ?fs ''alice'') ''p1'' = Some ?pl"
    by (simp add: load_user_def)
  have h2: "\<forall>t \<in> set (pl_tracks ?pl). t ''id'' \<noteq> None"
    by simp
  have h3: "pl_tracks ?pl = [[''id'' \<mapsto> JStr ''A''], [''id'' \<mapsto> JStr ''B''], [''id'' \<mapsto> JStr ''C'']] \<and>
            get_id [''id'' \<mapsto> JStr ''A''] = JStr ''A'' \<and> get_id [''id'' \<mapsto> JStr ''B''] = JStr ''B'' \<and>
            get_id [''id'' \<mapsto> JStr ''C''] = JStr ''C''"
    by (simp add: get_id_def)
  show ?thesis
    using reorder_playlist_request_order [of ?fs "''alice''" "''p1''" ?pl "[]"
        "[''id'' \<mapsto> JStr ''A'']" "[''id'' \<mapsto> JStr ''B'']" "[''id'' \<mapsto> JStr ''C'']"] h1 h2 h3
    by blast
qed

text \<open>
  Claim C5. The claim holds for a playlist whose tracks all carry the key \<^verbatim>\<open>"id"\<close>
  (\<open>reorder_playlist_request_order\<close>), but not for every playlist that the server
  stores. \<^verbatim>\<open>add_to_playlist\<close> reads identifiers with \<^verbatim>\<open>t.get("id")\<close> and stores any
  dict: the body \<^verbatim>\<open>{}\<close> is appended to the playlist A. On that playlist the reorder
  route, which reads \<^verbatim>\<open>t["id"]\<close>, raises \<^verbatim>\<open>KeyError\<close> for the request A and stores
  nothing, where the claim gives the sequence A.
\<close>

theorem reorder_playlist_key_error:
  "add_to_playlist
       [''alice'' \<mapsto> \<lparr>history = [], search_cache = [], liked = [],
          playlists = [''p1'' \<mapsto> \<lparr>pl_name = ''mix'', pl_tracks = [[''id'' \<mapsto> JStr ''A'']],
             pl_created_at = 0\<rparr>]\<rparr>]
       ''alice'' ''p1'' Map.empty =
     Inr ([''alice'' \<mapsto> \<lparr>history = [], search_cache = [], liked = [],
            playlists = [''p1'' \<mapsto> \<lparr>pl_name = ''mix'',
               pl_tracks = [[''id'' \<mapsto> JStr ''A''], Map.empty],
               pl_created_at = 0\<rparr>]\<rparr>], 2) \<and>
   reorder_playlist
       [''alice'' \<mapsto> \<lparr>history = [], search_cache = [], liked = [],
          playlists = [''p1'' \<mapsto> \<lparr>pl_name = ''mix'',
             pl_tracks = [[''id'' \<mapsto> JStr ''A''], Map.empty],
             pl_created_at = 0\<rparr>]\<rparr>]
       ''alice'' ''p1'' [''A''] = Inl KeyError"
  by (simp add: add_to_playlist_def reorder_playlist_def load_user_def save_user_def
      index_id_def get_id_def Let_def)

subsection \<open>Uniqueness by identifier\<close>

lemma add_to_playlist_unique:
  assumes "playlists (load_user fs u) pid = Some pl"
    and "distinct (map get_id (pl_tracks pl))"
  shows "\<exists>fs' ts'. add_to_playlist fs u pid tr = Inr (fs', length ts') \<and>
           playlist_tracks fs' u pid = Some ts' \<and> distinct (map get_id ts') \<and>
           (get_id tr \<in> get_id ` set (pl_tracks pl) \<longrightarrow> ts' = pl_tracks pl)"
proof (cases "get_id tr \<in> get_id ` set (pl_tracks pl)")
  case True
  then have "list_ex (\<lambda>t. get_id t = get_id tr) (pl_tracks pl)"
    by (auto simp: list_ex_iff)
  with assms show ?thesis
    by (simp add: add_to_playlist_def Let_def playlist_tracks_saved)
next
  case False
  then have "\<not> list_ex (\<lambda>t. get_id t = get_id tr) (pl_tracks pl)"
    by (auto simp: list_ex_iff image_iff)
  with assms False show ?thesis
    by (simp add: add_to_playlist_def Let_def playlist_tracks_saved)
qed

lemma remove_from_playlist_unique:
  assumes "playlists (load_user fs u) pid = Some pl"
    and "distinct (map get_id (pl_tracks pl))"
  shows "\<exists>fs' ts'. remove_from_playlist fs u pid v = Inr (fs', length ts') \<and>
           playlist_tracks fs' u pid = Some ts' \<and> distinct (map get_id ts')"
  using assms
  by (simp add: remove_from_playlist_def Let_def playlist_tracks_saved distinct_map_filter)

lemma reorder_playlist_unique:
  assumes "playlists (load_user fs u) pid = Some pl"
    and "\<forall>t \<in> set (pl_tracks pl). t ''id'' \<noteq> None"
    and "distinct ids"
  shows "\<exists>fs' ts'. reorder_playlist fs u pid ids = Inr (fs', length ts') \<and>
           playlist_tracks fs' u pid = Some ts' \<and> distinct (map get_id ts')"
proof -
  have "distinct (map JStr (filter (\<lambda>tid. JStr tid \<in> get_id ` set (rev (pl_tracks pl))) ids))"
    using assms(3) by (simp add: distinct_map inj_on_def)
  then have "distinct (map get_id (List.map_filter
               (\<lambda>tid. find (\<lambda>t. get_id t = JStr tid) (rev (pl_tracks pl))) ids))"
    by (simp only: picked_ids)
  with reorder_playlist_result [OF assms(1,2), of ids] show ?thesis by blast
qed

text \<open>
  Claim C8. Adding and removing a track keep a playlist unique by identifier
  (\<open>add_to_playlist_unique\<close>, \<open>remove_from_playlist_unique\<close>), and so does a reorder
  whose request names no identifier twice (\<open>reorder_playlist_unique\<close>). A reorder
  request that repeats an identifier breaks the invariant: the playlist with the one track
  A, reordered by A, A, is stored with the track A twice.
\<close>

theorem reorder_playlist_repeated_id:
  "distinct (map get_id [[''id'' \<mapsto> JStr ''A'']]) \<and>
   reorder_playlist
       [''alice'' \<mapsto> \<lparr>history = [], search_cache = [], liked = [],
          playlists = [''p1'' \<mapsto> \<lparr>pl_name = ''mix'', pl_tracks = [[''id'' \<mapsto> JStr ''A'']],
             pl_created_at = 0\<rparr>]\<rparr>]
       ''alice'' ''p1'' [''A'', ''A''] =
     Inr ([''alice'' \<mapsto> \<lparr>history = [], search_cache = [], liked = [],
            playlists = [''p1'' \<mapsto> \<lparr>pl_name = ''mix'',
               pl_tracks = [[''id'' \<mapsto> JStr ''A''], [''id'' \<mapsto> JStr ''A'']],
               pl_created_at = 0\<rparr>]\<rparr>], 2) \<and>
   \<not> distinct (map get_id [[''id'' \<mapsto> JStr ''A''], [''id'' \<mapsto> JStr ''A'']])"
  by (simp add: reorder_playlist_def load_user_def save_user_def index_id_def pick_tracks_def
      get_id_def Let_def)

section \<open>The TTL caches\<close>

lemma audio_url_cached_Some:
  "audio_url_cached s vid now = Some r \<longleftrightarrow>
     (\<exists>c. audio_url_cache s vid = Some c \<and> now - ue_ts c < AUDIO_URL_TTL \<and>
          r = (ue_url c, cached_track s vid))"
  by (auto simp: audio_url_cached_def split: option.splits)

lemma audio_url_cached_None:
  "audio_url_cached s vid now = None \<longleftrightarrow>
     (audio_url_cache s vid = None \<or>
      (\<exists>c. audio_url_cache s vid = Some c \<and> now - ue_ts c \<ge> AUDIO_URL_TTL))"
  by (auto simp: audio_url_cached_def split: option.splits)

lemma related_cached_Some:
  "related_cached s vid now = Some r \<longleftrightarrow>
     (\<exists>c. related_cache s vid = Some c \<and> now - re_ts c < RELATED_CACHE_TTL \<and> r = re_related c)"
  by (auto simp: related_cached_def split: option.splits)

lemma related_cached_None:
  "related_cached s vid now = None \<longleftrightarrow>
     (related_cache s vid = None \<or>
      (\<exists>c. related_cache s vid = Some c \<and> now - re_ts c \<ge> RELATED_CACHE_TTL))"
  by (auto simp: related_cached_def split: option.splits)

lemma track_info_cached_Some:
  "track_info_cached s vid now = Some r \<longleftrightarrow>
     (\<exists>c. track_info_cache s vid = Some c \<and> now - ie_ts c < AUDIO_URL_TTL \<and> r = ie_info c)"
  by (auto simp: track_info_cached_def split: option.splits)

lemma track_info_cached_None:
  "track_info_cached s vid now = None \<longleftrightarrow>
     (track_info_cache s vid = None \<or>
      (\<exists>c. track_info_cache s vid = Some c \<and> now - ie_ts c \<ge> AUDIO_URL_TTL))"
  by (auto simp: track_info_cached_def split: option.splits)

lemma search_cached_Some:
  "search_cached cache key now = Some r \<longleftrightarrow>
     (\<exists>c. map_of cache key = Some c \<and> now - se_ts c < SEARCH_CACHE_TTL \<and> r = se_results c)"
  by (auto simp: search_cached_def split: option.splits)

lemma search_cached_None:
  "search_cached cache key now = None \<longleftrightarrow>
     (map_of cache key = None \<or>
      (\<exists>c. map_of cache key = Some c \<and> now - se_ts c \<ge> SEARCH_CACHE_TTL))"
  by (auto simp: search_cached_def split: option.splits)

lemma finish_then_cached:
  "audio_url_cached (fst (fetch_stream_finish s vid ev (Inr (u, ti)) t0 t1)) vid now =
     (if now - t0 < AUDIO_URL_TTL then Some (u, ti) else None)"
  by (simp add: fetch_stream_finish_def audio_url_cached_def cached_track_def)

lemma finish_then_info_cached:
  "track_info_cached (fst (fetch_stream_finish s vid ev (Inr (u, ti)) t0 t1)) vid now =
     (if now - t1 < AUDIO_URL_TTL then Some ti else None)"
  by (simp add: fetch_stream_finish_def track_info_cached_def)

lemma store_then_related_cached:
  "related_cached (snd (related_store s vid (Inr rel) t0)) vid now =
     (if now - t0 < RELATED_CACHE_TTL then Some rel else None)"
  by (simp add: related_store_def related_cached_def)

text \<open>
  The lookups at the head of the cached operations. In each cache (resolved URLs, track
  metadata, related lists, the per-user search cache) the lookup at the head of the cached operation answers from the cache
  exactly when the key has an entry and \<open>now - inserted_at < ttl\<close>. A key without an
  entry and a key whose entry has \<open>now - inserted_at \<ge> ttl\<close> both give no answer, and
  the operation goes on as for a miss: \<^verbatim>\<open>fetch_stream\<close> to the in-flight check,
  \<^verbatim>\<open>fetch_related\<close> to the external call. An entry stored at \<open>t0\<close> is a hit at
  \<open>t0 + ttl - \<epsilon>\<close> and a miss at \<open>t0 + ttl + \<epsilon>\<close>.
\<close>

theorem ttl_lookup_fresh_exactly:
  "(audio_url_cached s vid now = Some r \<longleftrightarrow>
      (\<exists>c. audio_url_cache s vid = Some c \<and> now - ue_ts c < AUDIO_URL_TTL \<and>
           r = (ue_url c, cached_track s vid))) \<and>
   (audio_url_cached s vid now = None \<longleftrightarrow>
      (audio_url_cache s vid = None \<or>
       (\<exists>c. audio_url_cache s vid = Some c \<and> now - ue_ts c \<ge> AUDIO_URL_TTL))) \<and>
   (audio_url_cached s vid now = Some r \<longrightarrow> fetch_stream_start s vid now = (s, Returned r)) \<and>
   (audio_url_cached s vid now = None \<longrightarrow> fetch_stream_start s vid now = fetch_stream_join s vid) \<and>
   (related_cached s vid now = Some rel \<longleftrightarrow>
      (\<exists>c. related_cache s vid = Some c \<and> now - re_ts c < RELATED_CACHE_TTL \<and>
           rel = re_related c)) \<and>
   (related_cached s vid now = None \<longleftrightarrow>
      (related_cache s vid = None \<or>
       (\<exists>c. related_cache s vid = Some c \<and> now - re_ts c \<ge> RELATED_CACHE_TTL))) \<and>
   (related_cached s vid now = Some rel \<longrightarrow> fetch_related s vid now ext now' = (Inr rel, s, False)) \<and>
   (related_cached s vid now = None \<longrightarrow>
      fetch_related s vid now ext now' =
        (fst (related_store s vid ext now'), snd (related_store s vid ext now'), True)) \<and>
   (track_info_cached s vid now = Some ti \<longleftrightarrow>
      (\<exists>c. track_info_cache s vid = Some c \<and> now - ie_ts c < AUDIO_URL_TTL \<and> ti = ie_info c)) \<and>
   (track_info_cached s vid now = None \<longleftrightarrow>
      (track_info_cache s vid = None \<or>
       (\<exists>c. track_info_cache s vid = Some c \<and> now - ie_ts c \<ge> AUDIO_URL_TTL))) \<and>
   (search_cached cache key now = Some res \<longleftrightarrow>
      (\<exists>c. map_of cache key = Some c \<and> now - se_ts c < SEARCH_CACHE_TTL \<and> res = se_results c)) \<and>
   (search_cached cache key now = None \<longleftrightarrow>
      (map_of cache key = None \<or>
       (\<exists>c. map_of cache key = Some c \<and> now - se_ts c \<ge> SEARCH_CACHE_TTL))) \<and>
   (0 < \<epsilon> \<longrightarrow>
      audio_url_cached (fst (fetch_stream_finish s vid ev (Inr (u, tr)) t0 t1)) vid
        (t0 + AUDIO_URL_TTL - \<epsilon>) = Some (u, tr) \<and>
      audio_url_cached (fst (fetch_stream_finish s vid ev (Inr (u, tr)) t0 t1)) vid
        (t0 + AUDIO_URL_TTL + \<epsilon>) = None \<and>
      track_info_cached (fst (fetch_stream_finish s vid ev (Inr (u, tr)) t0 t1)) vid
        (t1 + AUDIO_URL_TTL - \<epsilon>) = Some tr \<and>
      track_info_cached (fst (fetch_stream_finish s vid ev (Inr (u, tr)) t0 t1)) vid
        (t1 + AUDIO_URL_TTL + \<epsilon>) = None \<and>
      related_cached (snd (related_store s vid (Inr rl) t0)) vid (t0 + RELATED_CACHE_TTL - \<epsilon>)
        = Some rl \<and>
      related_cached (snd (related_store s vid (Inr rl) t0)) vid (t0 + RELATED_CACHE_TTL + \<epsilon>)
        = None)"
proof -
  have start: "fetch_stream_start s vid now =
      (case audio_url_cached s vid now of Some r \<Rightarrow> (s, Returned r) | None \<Rightarrow> fetch_stream_join s vid)"
    by (simp add: fetch_stream_start_def)
  have c3: "audio_url_cached s vid now = Some r \<longrightarrow> fetch_stream_start s vid now = (s, Returned r)"
    and c4: "audio_url_cached s vid now = None \<longrightarrow> fetch_stream_start s vid now = fetch_stream_join s vid"
    by (simp_all add: start)
  have c7: "related_cached s vid now = Some rel \<longrightarrow> fetch_related s vid now ext now' = (Inr rel, s, False)"
    and c8: "related_cached s vid now = None \<longrightarrow>
      fetch_related s vid now ext now' =
        (fst (related_store s vid ext now'), snd (related_store s vid ext now'), True)"
    by (simp_all add: fetch_related_def split_beta)
  have c13: "0 < \<epsilon> \<longrightarrow>
      audio_url_cached (fst (fetch_stream_finish s vid ev (Inr (u, tr)) t0 t1)) vid
        (t0 + AUDIO_URL_TTL - \<epsilon>) = Some (u, tr) \<and>
      audio_url_cached (fst (fetch_stream_finish s vid ev (Inr (u, tr)) t0 t1)) vid
        (t0 + AUDIO_URL_TTL + \<epsilon>) = None \<and>
      track_info_cached (fst (fetch_stream_finish s vid ev (Inr (u, tr)) t0 t1)) vid
        (t1 + AUDIO_URL_TTL - \<epsilon>) = Some tr \<and>
      track_info_cached (fst (fetch_stream_finish s vid ev (Inr (u, tr)) t0 t1)) vid
        (t1 + AUDIO_URL_TTL + \<epsilon>) = None \<and>
      related_cached (snd (related_store s vid (Inr rl) t0)) vid (t0 + RELATED_CACHE_TTL - \<epsilon>)
        = Some rl \<and>
      related_cached (snd (related_store s vid (Inr rl) t0)) vid (t0 + RELATED_CACHE_TTL + \<epsilon>)
        = None"
    unfolding finish_then_cached finish_then_info_cached store_then_related_cached by simp
  show ?thesis
    by (intro conjI;
        (rule audio_url_cached_Some audio_url_cached_None related_cached_Some related_cached_None
           track_info_cached_Some track_info_cached_None search_cached_Some search_cached_None
           c3 c4 c7 c8 c13))
qed

theorem ttl_lookup_fresh_exactly_witness:
  "audio_url_cached (fst (fetch_stream_finish initial_server ''v1'' 0 (Inr (''u1'', [''id'' \<mapsto> JStr ''v1''])) 1000 1001))
     ''v1'' (1000 + AUDIO_URL_TTL - 1) = Some (''u1'', [''id'' \<mapsto> JStr ''v1'']) \<and>
   audio_url_cached (fst (fetch_stream_finish initial_server ''v1'' 0 (Inr (''u1'', [''id'' \<mapsto> JStr ''v1''])) 1000 1001))
     ''v1'' (1000 + AUDIO_URL_TTL + 1) = None \<and>
   related_cached (snd (related_store initial_server ''v1'' (Inr [[''id'' \<mapsto> JStr ''v2'']]) 1000))
     ''v1'' (1000 + RELATED_CACHE_TTL - 1) = Some [[''id'' \<mapsto> JStr ''v2'']] \<and>
   related_cached (snd (related_store initial_server ''v1'' (Inr [[''id'' \<mapsto> JStr ''v2'']]) 1000))
     ''v1'' (1000 + RELATED_CACHE_TTL + 1) = None \<and>
   fetch_stream_start initial_server ''v1'' 1000 = fetch_stream_join initial_server ''v1'' \<and>
   fetch_related initial_server ''v1'' 1000 (Inr []) 1001 =
     (fst (related_store initial_server ''v1'' (Inr []) 1001),
      snd (related_store initial_server ''v1'' (Inr []) 1001), True)"
proof -
  have e: "(0::real) < 1" by simp
  have a: "audio_url_cache initial_server ''v1'' = None"
    and r: "related_cache initial_server ''v1'' = None"
    by (simp_all add: initial_server_def)
  show ?thesis
    using ttl_lookup_fresh_exactly [of initial_server "''v1''" 1000 "(''u1'', Map.empty)" "[]"
        "Inr []" 1001 Map.empty "[]" "''k''" "[]" 1 0 "''u1''" "[''id'' \<mapsto> JStr ''v1'']"
        1000 1001 "[[''id'' \<mapsto> JStr ''v2'']]"] e a r
    by blast
qed

section \<open>Related lists\<close>

text \<open>
  Claim C6, as the code has it. \<^verbatim>\<open>fetch_related\<close> catches \<^verbatim>\<open>DownloadError\<close> and
  nothing else. When the related lookup misses and the external call fails with
  \<^verbatim>\<open>DownloadError\<close>, the lookup answers the empty list and stores it under the
  identifier with the time of the store; a second lookup of the identifier less than the
  TTL after that time answers the empty list from the cache, without an external call
  and without a change of the state. When the external call fails with any other
  exception, the exception goes to the caller and the state is unchanged: nothing is
  cached.
\<close>

theorem fetch_related_failure_cached:
  "related_cached s vid now = None \<longrightarrow>
     fetch_related s vid now (Inl DownloadError) now' =
       (Inr [], s\<lparr>related_cache := (related_cache s)(vid \<mapsto> \<lparr>re_related = [], re_ts = now'\<rparr>)\<rparr>, True) \<and>
     (now2 - now' < RELATED_CACHE_TTL \<longrightarrow>
        fetch_related (s\<lparr>related_cache := (related_cache s)(vid \<mapsto> \<lparr>re_related = [], re_ts = now'\<rparr>)\<rparr>)
          vid now2 ext now3 =
        (Inr [], s\<lparr>related_cache := (related_cache s)(vid \<mapsto> \<lparr>re_related = [], re_ts = now'\<rparr>)\<rparr>, False)) \<and>
     (e \<noteq> DownloadError \<longrightarrow> fetch_related s vid now (Inl e) now' = (Inl e, s, True))"
  by (cases e) (simp_all add: fetch_related_def related_store_def related_cached_def)

theorem fetch_related_failure_cached_witness:
  "fetch_related initial_server ''X'' 1000 (Inl DownloadError) 1002 =
     (Inr [], initial_server\<lparr>related_cache := [''X'' \<mapsto> \<lparr>re_related = [], re_ts = 1002\<rparr>]\<rparr>, True) \<and>
   fetch_related (initial_server\<lparr>related_cache := [''X'' \<mapsto> \<lparr>re_related = [], re_ts = 1002\<rparr>]\<rparr>)
     ''X'' 4000 (Inr [[''id'' \<mapsto> JStr ''v2'']]) 4001 =
     (Inr [], initial_server\<lparr>related_cache := [''X'' \<mapsto> \<lparr>re_related = [], re_ts = 1002\<rparr>]\<rparr>, False) \<and>
   fetch_related initial_server ''X'' 1000 (Inl ValueError) 1002 = (Inl ValueError, initial_server, True)"
proof -
  have m: "related_cached initial_server ''X'' 1000 = None"
    by (simp add: related_cached_def initial_server_def)
  have w: "(4000::real) - 1002 < RELATED_CACHE_TTL"
    by (simp add: RELATED_CACHE_TTL_def)
  have n: "ValueError \<noteq> DownloadError"
    by simp
  have c: "related_cache initial_server = Map.empty"
    by (simp add: initial_server_def)
  show ?thesis
    using fetch_related_failure_cached [of initial_server "''X''" 1000 1002 4000
        "Inr [[''id'' \<mapsto> JStr ''v2'']]" 4001 ValueError] m w n
    by (simp add: c)
qed

text \<open>
  The claim as the spec states it fails for a failure that is not a \<^verbatim>\<open>DownloadError\<close>:
  the lookup raises instead of answering the empty list, the cache has no entry
  afterwards, and the next lookup calls the external operation again.
\<close>

theorem fetch_related_other_failure_uncached:
  "fetch_related initial_server ''X'' 1000 (Inl OtherError) 1002 =
     (Inl OtherError, initial_server, True) \<and>
   related_cache initial_server ''X'' = None \<and>
   fetch_related initial_server ''X'' 1003 (Inl OtherError) 1004 =
     (Inl OtherError, initial_server, True)"
  by (simp add: fetch_related_def related_store_def related_cached_def initial_server_def)

section \<open>Prefetch\<close>

lemma prefetch_next_launched:
  "vid \<in> set (prefetch_next s ids) \<longleftrightarrow> vid \<in> set (take 3 ids) \<and> audio_url_cache s vid = None"
  by (auto simp: prefetch_next_def)

lemma prefetch_next_at_most_3: "length (prefetch_next s ids) \<le> 3"
  by (simp add: prefetch_next_def le_trans [OF length_filter_le])

text \<open>
  Claim C7. \<^verbatim>\<open>prefetch_next\<close> looks at the first three hints only
  (\<open>prefetch_next_at_most_3\<close>), and creates a task for a hint exactly when the cache has no
  entry at all for it (\<open>prefetch_next_launched\<close>): the test is membership, not
  freshness. A hint whose entry is stale gets no task: with an entry stored at time
  1700000000, at time 1700020000 (the TTL is 14400) the lookup of \<^verbatim>\<open>fetch_stream\<close>
  misses, and \<^verbatim>\<open>prefetch_next\<close> creates nothing.
\<close>

theorem prefetch_next_skips_stale:
  "audio_url_cached
     (initial_server\<lparr>audio_url_cache := [''X'' \<mapsto> \<lparr>ue_url = ''u'', ue_ts = 1700000000\<rparr>]\<rparr>)
     ''X'' 1700020000 = None \<and>
   prefetch_next
     (initial_server\<lparr>audio_url_cache := [''X'' \<mapsto> \<lparr>ue_url = ''u'', ue_ts = 1700000000\<rparr>]\<rparr>)
     [''X''] = []"
  by (simp add: audio_url_cached_def prefetch_next_def AUDIO_URL_TTL_def)

section \<open>The per-user search cache\<close>

lemma update_new_key: "k \<notin> fst ` set al \<Longrightarrow> AList.update k v al = al @ [(k, v)]"
  by (induction al) auto

lemma drop_sorted_split:
  fixes f :: "'a \<Rightarrow> real"
  shows "\<forall>x \<in> set (drop k (sort_key f xs)). \<forall>y \<in> set (take k (sort_key f xs)). f y \<le> f x"
proof -
  have "sorted (map f (take k (sort_key f xs) @ drop k (sort_key f xs)))"
    by simp
  then show ?thesis
    unfolding map_append sorted_append by auto
qed

lemma sorted_drop_snoc:
  fixes xs :: "real list"
  assumes "sorted (xs @ [a])"
  shows "sorted (drop k xs @ [a])"
proof -
  from assms have "sorted xs" and le: "\<forall>x \<in> set xs. x \<le> a"
    by (simp_all add: sorted_append)
  then have "sorted (drop k xs)" by (simp add: sorted_wrt_drop)
  moreover have "\<forall>x \<in> set (drop k xs). x \<le> a"
    using le by (auto dest: in_set_dropD)
  ultimately show ?thesis by (simp add: sorted_append)
qed

lemma search_store_over_cap:
  assumes "length (AList.update key \<lparr>se_ts = now', se_results = res\<rparr> cache) > 50"
  shows "\<exists>dropped. length (search_store cache key now' res) = 50 \<and>
           mset (dropped @ search_store cache key now' res) =
             mset (AList.update key \<lparr>se_ts = now', se_results = res\<rparr> cache) \<and>
           (\<forall>x \<in> set (search_store cache key now' res).
              \<forall>y \<in> set dropped. se_ts (snd y) \<le> se_ts (snd x))"
proof -
  let ?c1 = "AList.update key \<lparr>se_ts = now', se_results = res\<rparr> cache"
  let ?f = "\<lambda>x. se_ts (snd x)"
  let ?k = "length ?c1 - 50"
  have s: "search_store cache key now' res = drop ?k (sort_key ?f ?c1)"
    using assms by (simp add: search_store_def Let_def)
  have "mset (take ?k (sort_key ?f ?c1) @ drop ?k (sort_key ?f ?c1)) = mset ?c1"
    by simp
  moreover have "length (drop ?k (sort_key ?f ?c1)) = 50"
    using assms by simp
  ultimately show ?thesis
    unfolding s using drop_sorted_split [of ?k ?f ?c1] by blast
qed

lemma search_store_new_key_sorted:
  assumes "key \<notin> fst ` set cache"
    and "sorted (map (\<lambda>x. se_ts (snd x)) cache @ [now'])"
  shows "search_store cache key now' res =
           drop (Suc (length cache) - 50) (cache @ [(key, \<lparr>se_ts = now', se_results = res\<rparr>)])"
proof -
  let ?c1 = "cache @ [(key, \<lparr>se_ts = now', se_results = res\<rparr>)]"
  have u: "AList.update key \<lparr>se_ts = now', se_results = res\<rparr> cache = ?c1"
    using assms(1) by (rule update_new_key)
  have "sorted (map (\<lambda>x. se_ts (snd x)) ?c1)"
    using assms(2) by simp
  then have "sort_key (\<lambda>x. se_ts (snd x)) ?c1 = ?c1"
    by (rule sort_key_id_if_sorted)
  then show ?thesis
    unfolding search_store_def u Let_def by simp
qed

lemma search_cache_saved:
  "search_cache (load_user (save_user fs u (d\<lparr>search_cache := c\<rparr>)) u) = c"
  by (simp add: load_user_def save_user_def)

lemma cached_search_miss:
  "search_cached (search_cache (load_user fs u)) (normalise q) now = None \<Longrightarrow>
   cached_search normalise fs u q now (Inr res) now' =
     (Inr res,
      save_user fs u (load_user fs u
        \<lparr>search_cache := search_store (search_cache (load_user fs u)) (normalise q) now' res\<rparr>),
      True)"
  by (simp add: cached_search_def Let_def)

lemma cached_search_hit:
  "search_cached (search_cache (load_user fs u)) (normalise q) now = Some r \<Longrightarrow>
   cached_search normalise fs u q now ext now' = (Inr r, fs, False)"
  by (simp add: cached_search_def Let_def)

lemma search_cached_new_key: "key \<notin> fst ` set cache \<Longrightarrow> search_cached cache key now = None"
proof -
  assume "key \<notin> fst ` set cache"
  then have "map_of cache key = None" by (simp add: map_of_eq_None_iff)
  then show ?thesis by (simp add: search_cached_def)
qed

lemma searches_in_order:
  assumes "search_cache (load_user fs u) = []"
    and "distinct (map (\<lambda>(q, now, res, now'). normalise q) reqs)"
    and "sorted (map (\<lambda>(q, now, res, now'). now') reqs)"
  shows "search_cache (load_user
           (foldl (\<lambda>fs (q, now, res, now'). fst (snd (cached_search normalise fs u q now (Inr res) now')))
              fs reqs) u) =
         drop (length reqs - 50)
           (map (\<lambda>(q, now, res, now'). (normalise q, \<lparr>se_ts = now', se_results = res\<rparr>)) reqs)"
  using assms(2,3)
proof (induction reqs rule: rev_induct)
  case Nil
  show ?case by (simp add: assms(1))
next
  case (snoc r reqs)
  obtain q now res now' where r: "r = (q, now, res, now')" by (cases r) auto
  let ?step = "\<lambda>fs (q, now, res, now'). fst (snd (cached_search normalise fs u q now (Inr res) now'))"
  let ?ent = "\<lambda>(q, now, res, now'). (normalise q, \<lparr>se_ts = now', se_results = res\<rparr>)"
  let ?fs = "foldl ?step fs reqs"
  let ?items = "map ?ent reqs"
  from snoc have ih: "search_cache (load_user ?fs u) = drop (length reqs - 50) ?items"
    by (simp add: sorted_append)
  have keys: "fst ` set ?items = (\<lambda>(q, now, res, now'). normalise q) ` set reqs"
    by (force simp: image_iff split: prod.splits)
  from snoc.prems(1) have "normalise q \<notin> fst ` set ?items"
    unfolding keys by (simp add: r case_prod_beta)
  moreover have "set (drop (length reqs - 50) ?items) \<subseteq> set ?items"
    by (rule set_drop_subset)
  ultimately have new: "normalise q \<notin> fst ` set (drop (length reqs - 50) ?items)"
    by blast
  have ts: "map (\<lambda>x. se_ts (snd x)) ?items = map (\<lambda>(q, now, res, now'). now') reqs"
    by (simp add: case_prod_beta comp_def)
  from snoc.prems(2) have "sorted (map (\<lambda>x. se_ts (snd x)) ?items @ [now'])"
    unfolding ts by (simp add: r)
  then have srt: "sorted (map (\<lambda>x. se_ts (snd x)) (drop (length reqs - 50) ?items) @ [now'])"
    unfolding drop_map [symmetric] by (rule sorted_drop_snoc)
  have "search_cache (load_user (foldl ?step fs (reqs @ [r])) u) =
        search_store (drop (length reqs - 50) ?items) (normalise q) now' res"
    using search_cached_new_key [OF new, of now]
    by (simp add: r cached_search_miss ih search_cache_saved)
  also have "\<dots> = drop (Suc (length (drop (length reqs - 50) ?items)) - 50)
                     (drop (length reqs - 50) ?items @ [(normalise q, \<lparr>se_ts = now', se_results = res\<rparr>)])"
    by (rule search_store_new_key_sorted [OF new srt])
  also have "\<dots> = drop (length (reqs @ [r]) - 50) (map ?ent (reqs @ [r]))"
  proof -
    have n: "length reqs - (length reqs - 50 + 49) + (length reqs - 50) = length reqs - 49"
      by arith
    show ?thesis by (simp add: r n)
  qed
  finally show ?case .
qed

text \<open>
  Claim C4. A hit of the search cache changes nothing in the files, so no timestamp moves
  on access. On a miss the new entry is stored under the normalised query with the time
  of the store; when the cache then has more than 50 entries, exactly 50 are kept, the
  kept and the dropped entries together are the entries before the cut, and no dropped
  entry has a later timestamp than a kept one. For a user with an empty cache, queries
  with pairwise different normalised forms, stored at times that do not decrease, leave
  the last 50 of them in insertion order: after 51 such queries exactly 50 entries
  remain and the first query is the one that is gone.
\<close>

theorem search_cache_cap_50:
  "(search_cached (search_cache (load_user fs u)) (normalise q) now = Some r \<longrightarrow>
      cached_search normalise fs u q now ext now' = (Inr r, fs, False)) \<and>
   (search_cached (search_cache (load_user fs u)) (normalise q) now = None \<and>
    50 < length (AList.update (normalise q) \<lparr>se_ts = now', se_results = res\<rparr>
                   (search_cache (load_user fs u))) \<longrightarrow>
      (\<exists>fs' dropped.
         cached_search normalise fs u q now (Inr res) now' = (Inr res, fs', True) \<and>
         length (search_cache (load_user fs' u)) = 50 \<and>
         mset (dropped @ search_cache (load_user fs' u)) =
           mset (AList.update (normalise q) \<lparr>se_ts = now', se_results = res\<rparr>
                   (search_cache (load_user fs u))) \<and>
         (\<forall>x \<in> set (search_cache (load_user fs' u)).
            \<forall>y \<in> set dropped. se_ts (snd y) \<le> se_ts (snd x)))) \<and>
   (search_cache (load_user fs u) = [] \<and>
    distinct (map (\<lambda>(q, now, res, now'). normalise q) reqs) \<and>
    sorted (map (\<lambda>(q, now, res, now'). now') reqs) \<longrightarrow>
      search_cache (load_user
          (foldl (\<lambda>fs (q, now, res, now'). fst (snd (cached_search normalise fs u q now (Inr res) now')))
             fs reqs) u) =
        drop (length reqs - 50)
          (map (\<lambda>(q, now, res, now'). (normalise q, \<lparr>se_ts = now', se_results = res\<rparr>)) reqs) \<and>
      (length reqs = 51 \<longrightarrow>
         search_cache (load_user
             (foldl (\<lambda>fs (q, now, res, now'). fst (snd (cached_search normalise fs u q now (Inr res) now')))
                fs reqs) u) =
           tl (map (\<lambda>(q, now, res, now'). (normalise q, \<lparr>se_ts = now', se_results = res\<rparr>)) reqs) \<and>
         length (search_cache (load_user
             (foldl (\<lambda>fs (q, now, res, now'). fst (snd (cached_search normalise fs u q now (Inr res) now')))
                fs reqs) u)) = 50))"
proof (intro conjI impI)
  assume "search_cached (search_cache (load_user fs u)) (normalise q) now = Some r"
  then show "cached_search normalise fs u q now ext now' = (Inr r, fs, False)"
    by (rule cached_search_hit)
next
  assume a: "search_cached (search_cache (load_user fs u)) (normalise q) now = None \<and>
    50 < length (AList.update (normalise q) \<lparr>se_ts = now', se_results = res\<rparr>
                   (search_cache (load_user fs u)))"
  let ?c = "search_cache (load_user fs u)"
  let ?fs' = "save_user fs u (load_user fs u\<lparr>search_cache := search_store ?c (normalise q) now' res\<rparr>)"
  from a have m: "cached_search normalise fs u q now (Inr res) now' = (Inr res, ?fs', True)"
    by (simp add: cached_search_miss)
  have c: "search_cache (load_user ?fs' u) = search_store ?c (normalise q) now' res"
    by (rule search_cache_saved)
  from a search_store_over_cap [of "normalise q" now' res ?c] obtain dropped where
    "length (search_store ?c (normalise q) now' res) = 50"
    "mset (dropped @ search_store ?c (normalise q) now' res) =
       mset (AList.update (normalise q) \<lparr>se_ts = now', se_results = res\<rparr> ?c)"
    "\<forall>x \<in> set (search_store ?c (normalise q) now' res).
       \<forall>y \<in> set dropped. se_ts (snd y) \<le> se_ts (snd x)"
    by blast
  with m c show "\<exists>fs' dropped.
         cached_search normalise fs u q now (Inr res) now' = (Inr res, fs', True) \<and>
         length (search_cache (load_user fs' u)) = 50 \<and>
         mset (dropped @ search_cache (load_user fs' u)) =
           mset (AList.update (normalise q) \<lparr>se_ts = now', se_results = res\<rparr> ?c) \<and>
         (\<forall>x \<in> set (search_cache (load_user fs' u)).
            \<forall>y \<in> set dropped. se_ts (snd y) \<le> se_ts (snd x))"
    by metis
next
  assume a: "search_cache (load_user fs u) = [] \<and>
    distinct (map (\<lambda>(q, now, res, now'). normalise q) reqs) \<and>
    sorted (map (\<lambda>(q, now, res, now'). now') reqs)"
  let ?end = "search_cache (load_user
          (foldl (\<lambda>fs (q, now, res, now'). fst (snd (cached_search normalise fs u q now (Inr res) now')))
             fs reqs) u)"
  let ?items = "map (\<lambda>(q, now, res, now'). (normalise q, \<lparr>se_ts = now', se_results = res\<rparr>)) reqs"
  from a show e: "?end = drop (length reqs - 50) ?items"
    by (intro searches_in_order) simp_all
  assume l: "length reqs = 51"
  then show "?end = tl ?items"
    unfolding e by (simp add: drop_Suc)
  from l show "length ?end = 50"
    unfolding e by simp
qed

theorem search_cache_cap_50_witness:
  "map fst (search_cache (load_user
       (foldl (\<lambda>fs (q, now, res, now'). fst (snd (cached_search (\<lambda>q. q) fs ''alice'' q now (Inr res) now')))
          Map.empty (map (\<lambda>n. (replicate n CHR ''a'', real n, [], real n)) [0..<51]))
       ''alice''))
     = map (\<lambda>n. replicate n CHR ''a'') [1..<51]"
proof -
  let ?reqs = "map (\<lambda>n. (replicate n CHR ''a'', real n, [] :: track list, real n)) [0..<51]"
  have e: "search_cache (load_user Map.empty ''alice'') = []"
    by (simp add: load_user_def)
  have d: "distinct (map (\<lambda>(q, now, res, now'). (\<lambda>q. q) q) ?reqs)"
    by (simp add: distinct_map comp_def inj_on_def)
  have s: "sorted (map (\<lambda>(q, now, res, now'). now') ?reqs)"
    by (simp add: comp_def sorted_map sorted_wrt_upt)
  have l: "length ?reqs = 51" by simp
  have t: "map fst (tl (map (\<lambda>(q, now, res, now'). ((\<lambda>q. q) q, \<lparr>se_ts = now', se_results = res\<rparr>)) ?reqs))
           = map (\<lambda>n. replicate n CHR ''a'') [1..<51]"
  proof -
    have u: "[0..<51] = 0 # [1..<51]"
      by (simp add: upt_conv_Cons)
    show ?thesis
      unfolding u by (simp add: comp_def)
  qed
  from search_cache_cap_50 [of Map.empty "''alice''" "\<lambda>q. q" "''q''" 0 "[]" "Inr []" 0 "[]" ?reqs] e d s l
  have "search_cache (load_user
       (foldl (\<lambda>fs (q, now, res, now'). fst (snd (cached_search (\<lambda>q. q) fs ''alice'' q now (Inr res) now')))
          Map.empty ?reqs) ''alice'')
     = tl (map (\<lambda>(q, now, res, now'). ((\<lambda>q. q) q, \<lparr>se_ts = now', se_results = res\<rparr>)) ?reqs)"
    by blast
  then show ?thesis by (simp only: t)
qed

section \<open>Single flight: concurrent calls of fetch_stream\<close>
















text \<open>
  With three callers both waiters are resumed after the failure, and each registers an
  event of its own and hands a call to the executor while the other's call is still
  running: three external calls, two of them at the same time.
\<close>

lemma fetch_stream_waiters_call_concurrently:
  "run (callers initial_server ''v'' 3)
       [Start 0 0, Start 1 0, Start 2 0, Finish 0 (Inl DownloadError) 1 1, Wake 1, Wake 2] =
     Some \<lparr>srv = \<lparr>audio_url_cache = Map.empty, audio_url_inflight = [''v'' \<mapsto> 2],
                  track_info_cache = Map.empty, related_cache = Map.empty,
                  events = [0 \<mapsto> True, 1 \<mapsto> False, 2 \<mapsto> False], next_event = 3,
                  resolve_calls = [''v'', ''v'', ''v'']\<rparr>,
           tasks = [(''v'', Raised DownloadError), (''v'', Fetching 1), (''v'', Fetching 2)]\<rparr>"
  by (simp add: callers_def initial_server_def resume_def fetch_stream_start_def
      audio_url_cached_def fetch_stream_join_def fetch_stream_launch_def
      fetch_stream_after_wait_def fetch_stream_finish_def numeral_2_eq_2 numeral_3_eq_3 Let_def)

text \<open>
  Claim C3. The lookups at the head of the cached operations treat a stale entry as
  absent (\<open>ttl_lookup_fresh_exactly\<close>), but \<^verbatim>\<open>fetch_stream\<close> reads the cache a second
  time after \<^verbatim>\<open>wait()\<close> (lines 189 to 192), and that read has no TTL test. With an entry
  stored at time 1700000000, two callers at time 1700020000 (the TTL is 14400) both miss
  at line 182; the first makes the external call, which fails; the second is woken and
  returns the stale address. With no entry at all the same schedule leaves the second
  caller in an external call of its own: the stale entry is not treated as absent.
\<close>

theorem fetch_stream_waiter_returns_stale:
  "audio_url_cached
     (initial_server\<lparr>audio_url_cache := [''v'' \<mapsto> \<lparr>ue_url = ''old'', ue_ts = 1700000000\<rparr>]\<rparr>)
     ''v'' 1700020000 = None \<and>
   run (callers
          (initial_server\<lparr>audio_url_cache := [''v'' \<mapsto> \<lparr>ue_url = ''old'', ue_ts = 1700000000\<rparr>]\<rparr>)
          ''v'' 2)
       [Start 0 1700020000, Start 1 1700020000,
        Finish 0 (Inl DownloadError) 1700020001 1700020001, Wake 1] =
     Some \<lparr>srv = \<lparr>audio_url_cache = [''v'' \<mapsto> \<lparr>ue_url = ''old'', ue_ts = 1700000000\<rparr>],
                  audio_url_inflight = Map.empty,
                  track_info_cache = Map.empty, related_cache = Map.empty,
                  events = [0 \<mapsto> True], next_event = 1,
                  resolve_calls = [''v'']\<rparr>,
           tasks = [(''v'', Raised DownloadError), (''v'', Returned (''old'', Map.empty))]\<rparr> \<and>
   run (callers initial_server ''v'' 2)
       [Start 0 1700020000, Start 1 1700020000,
        Finish 0 (Inl DownloadError) 1700020001 1700020001, Wake 1] =
     Some \<lparr>srv = \<lparr>audio_url_cache = Map.empty, audio_url_inflight = [''v'' \<mapsto> 1],
                  track_info_cache = Map.empty, related_cache = Map.empty,
                  events = [0 \<mapsto> True, 1 \<mapsto> False], next_event = 2,
                  resolve_calls = [''v'', ''v'']\<rparr>,
           tasks = [(''v'', Raised DownloadError), (''v'', Fetching 1)]\<rparr>"
  by (simp add: callers_def initial_server_def resume_def fetch_stream_start_def
      audio_url_cached_def fetch_stream_join_def fetch_stream_launch_def cached_track_def
      fetch_stream_after_wait_def fetch_stream_finish_def AUDIO_URL_TTL_def
      numeral_2_eq_2 Let_def)

end
